theory Spec2Isabelle
  imports Main "HOL-Library.Word" "HOL-Library.Sublist" "HOL-Library.Char_ord"
begin

section \<open>Conventions\<close>

text \<open>
  Go's \<open>int\<close> (product IDs, counts, loop indices) is modelled as \<open>int\<close>: the catalog
  holds at most 100000 products and the counter is a 64-bit integer, so no operation
  below comes near the wrap-around. A \<open>float64\<close> is only stored and copied by the
  functions modelled here, never computed with, so it is kept as its 64-bit pattern;
  the zero value \<open>0.0\<close> is the pattern \<open>0\<close>.
\<close>

type_synonym float64 = "64 word"

section \<open>Seed data\<close>

text \<open>\<open>seeddata.SeedProduct\<close>: the template a product variant is generated from.\<close>

record SeedProduct =
  Name :: string
  Category :: string
  Description :: string
  Brand :: string
  Price :: float64

text \<open>One product of the API response, and the response, as \<open>json.Unmarshal\<close> fills them.\<close>

record dummyJSONProduct =
  Title :: string
  Description :: string
  Category :: string
  Price :: float64
  Brand :: string

record dummyJSONResponse =
  Products :: "dummyJSONProduct list"
  Total :: int

text \<open>
  What \<open>Load\<close> reads from the network: the response of \<open>http.Get\<close> with its status code,
  and what \<open>io.ReadAll\<close> returns for its body (the bytes read, and an error if reading
  failed).
\<close>

record Response =
  StatusCode :: int
  Body :: "string \<times> string option"

text \<open>\<open>log.Fatal\<close> and \<open>log.Fatalf\<close> end the process: each call is an error value.\<close>

datatype fatal =
    FetchFailed string
  | BadStatus int string
  | ReadFailed string
  | ParseFailed string
  | NoSeeds

definition StatusOK :: int where "StatusOK = 200"

text \<open>The body of the loop over \<open>apiResp.Products\<close>: an empty brand becomes \<open>Generic\<close>.\<close>

definition seed_of :: "dummyJSONProduct \<Rightarrow> SeedProduct" where
  "seed_of p =
     (let brand = dummyJSONProduct.Brand p;
          brand = (if brand = [] then ''Generic'' else brand)
      in \<lparr>SeedProduct.Name = Title p,
         Category = dummyJSONProduct.Category p,
         Description = dummyJSONProduct.Description p,
         Brand = brand,
         Price = dummyJSONProduct.Price p\<rparr>)"

text \<open>The loop, appending one seed per product to \<open>seeds\<close>.\<close>

primrec seeds_loop :: "dummyJSONProduct list \<Rightarrow> SeedProduct list \<Rightarrow> SeedProduct list" where
  "seeds_loop [] seeds = seeds"
| "seeds_loop (p # ps) seeds = seeds_loop ps (seeds @ [seed_of p])"

text \<open>
  \<open>Load\<close>. The outcome of \<open>http.Get(apiURL)\<close> (an error, or a response) and
  \<open>json.Unmarshal\<close> into a \<open>dummyJSONResponse\<close> (an error, or the filled struct) are
  parameters: the network and Go's JSON decoder are outside the repository. Log lines
  (among them the category counts) do not affect the result and are left out.
\<close>

definition Load ::
  "string + Response \<Rightarrow> (string \<Rightarrow> string + dummyJSONResponse) \<Rightarrow> fatal + SeedProduct list" where
  "Load get Unmarshal =
     (case get of
        Inl err \<Rightarrow> Inl (FetchFailed err)
      | Inr resp \<Rightarrow>
          if StatusCode resp \<noteq> StatusOK
          then Inl (BadStatus (StatusCode resp) (fst (Body resp)))
          else
            (case snd (Body resp) of
               Some err \<Rightarrow> Inl (ReadFailed err)
             | None \<Rightarrow>
                 (case Unmarshal (fst (Body resp)) of
                    Inl err \<Rightarrow> Inl (ParseFailed err)
                  | Inr apiResp \<Rightarrow>
                      (let seeds = seeds_loop (Products apiResp) []
                       in if length seeds = 0 then Inl NoSeeds else Inr seeds))))"

section \<open>The product catalog: model and store\<close>

text \<open>\<open>model.Product\<close>: one item of the catalog.\<close>

record Product =
  ID :: int
  Name :: string
  Category :: string
  Description :: string
  Brand :: string
  Price :: float64

text \<open>The zero value \<open>model.Product{}\<close> that \<open>Get\<close> returns for a missing ID.\<close>

definition Product_zero :: Product where
  "Product_zero =
     \<lparr>ID = 0, Name = [], Category = [], Description = [], Brand = [], Price = 0\<rparr>"

text \<open>
  \<open>store.ProductStore\<close>: a \<open>sync.Map\<close> from product ID to product, and an atomic
  64-bit counter. The \<open>sync.Map\<close> is modelled by its contents, a partial map.
\<close>

record ProductStore =
  data :: "int \<rightharpoonup> Product"
  count :: int

definition New :: ProductStore where
  "New = \<lparr>data = Map.empty, count = 0\<rparr>"

text \<open>\<open>Put\<close> stores the product under its ID and adds one to the counter, always.\<close>

definition Put :: "Product \<Rightarrow> ProductStore \<Rightarrow> ProductStore" where
  "Put product s = s\<lparr>data := (data s)(ID product \<mapsto> product), count := count s + 1\<rparr>"

text \<open>
  \<open>Get\<close> loads the ID; a miss gives the zero product and \<open>false\<close>. The store is
  passed through, so that what \<open>Get\<close> does to it (nothing) is part of the model.
\<close>

definition Get :: "int \<Rightarrow> ProductStore \<Rightarrow> (Product \<times> bool) \<times> ProductStore" where
  "Get pid s =
     (case data s pid of
        None \<Rightarrow> ((Product_zero, False), s)
      | Some val \<Rightarrow> ((val, True), s))"

definition Count :: "ProductStore \<Rightarrow> int" where
  "Count s = count s"

text \<open>A sequence of \<open>Put\<close> calls, in order, on a store.\<close>

definition Puts :: "Product list \<Rightarrow> ProductStore \<Rightarrow> ProductStore" where
  "Puts ps s = foldl (\<lambda>st p. Put p st) s ps"

section \<open>Iterating over the store\<close>

text \<open>
  \<open>Iterate\<close> walks the IDs from \<open>startID\<close> up to the counter read at entry. The callback
  of the source is a closure that may update captured variables: it is modelled as a
  function from the product and the closure's state to the continue flag and the new
  state, and \<open>Iterate\<close> returns the visit count with the final state.
\<close>

function Iterate_loop ::
  "ProductStore \<Rightarrow> int \<Rightarrow> int \<Rightarrow> (Product \<Rightarrow> 'a \<Rightarrow> bool \<times> 'a) \<Rightarrow> int \<Rightarrow> int \<Rightarrow> 'a \<Rightarrow> int \<times> 'a" where
  "Iterate_loop s tot maxCount fn pid visited acc =
     (if pid \<le> tot \<and> visited < maxCount then
        (case data s pid of
           None \<Rightarrow> Iterate_loop s tot maxCount fn (pid + 1) visited acc
         | Some val \<Rightarrow>
             (let r = fn val acc in
              if fst r then Iterate_loop s tot maxCount fn (pid + 1) (visited + 1) (snd r)
              else (visited + 1, snd r)))
      else (visited, acc))"
  by pat_completeness auto
termination
  by (relation "measure (\<lambda>(s, tot, maxCount, fn, pid, visited, acc). nat (tot + 1 - pid))") auto

text \<open>\<open>total := int(s.count.Load())\<close>, then the loop from \<open>startID\<close> with \<open>visited = 0\<close>.\<close>

definition Iterate ::
  "int \<Rightarrow> int \<Rightarrow> (Product \<Rightarrow> 'a \<Rightarrow> bool \<times> 'a) \<Rightarrow> ProductStore \<Rightarrow> 'a \<Rightarrow> int \<times> 'a" where
  "Iterate startID maxCount fn s acc = Iterate_loop s (count s) maxCount fn startID 0 acc"

text \<open>
  To speak about which products the callback is called on, a callback is wrapped so that
  it also appends each product it receives, with the flag it returns, to a log.
\<close>

definition observed ::
  "(Product \<Rightarrow> 'a \<Rightarrow> bool \<times> 'a) \<Rightarrow> Product \<Rightarrow> 'a \<times> (Product \<times> bool) list
     \<Rightarrow> bool \<times> ('a \<times> (Product \<times> bool) list)" where
  "observed fn p st = (let r = fn p (fst st) in (fst r, (snd r, snd st @ [(p, fst r)])))"

definition Iterate_calls ::
  "int \<Rightarrow> int \<Rightarrow> (Product \<Rightarrow> 'a \<Rightarrow> bool \<times> 'a) \<Rightarrow> ProductStore \<Rightarrow> 'a \<Rightarrow> (Product \<times> bool) list" where
  "Iterate_calls startID maxCount fn s acc =
     snd (snd (Iterate startID maxCount (observed fn) s (acc, [])))"

text \<open>The products stored under the IDs \<open>startID .. count\<close>, in ascending order of ID.\<close>

definition stored :: "ProductStore \<Rightarrow> int \<Rightarrow> Product list" where
  "stored s startID = List.map_filter (data s) [startID..count s]"

text \<open>
  The loop seen from the list of stored products (used in the proofs only): \<open>walk\<close>
  is the visit count and final state, \<open>calls\<close> the list of callback invocations.
\<close>

fun walk :: "(Product \<Rightarrow> 'a \<Rightarrow> bool \<times> 'a) \<Rightarrow> int \<Rightarrow> Product list \<Rightarrow> int \<Rightarrow> 'a \<Rightarrow> int \<times> 'a" where
  "walk fn maxCount [] visited acc = (visited, acc)"
| "walk fn maxCount (p # ps) visited acc =
     (if visited < maxCount then
        (let r = fn p acc in
         if fst r then walk fn maxCount ps (visited + 1) (snd r) else (visited + 1, snd r))
      else (visited, acc))"

fun calls :: "(Product \<Rightarrow> 'a \<Rightarrow> bool \<times> 'a) \<Rightarrow> int \<Rightarrow> Product list \<Rightarrow> int \<Rightarrow> 'a \<Rightarrow> (Product \<times> bool) list" where
  "calls fn maxCount [] visited acc = []"
| "calls fn maxCount (p # ps) visited acc =
     (if visited < maxCount then
        (let r = fn p acc in
         (p, fst r) # (if fst r then calls fn maxCount ps (visited + 1) (snd r) else []))
      else [])"

section \<open>Bounded search\<close>

text \<open>\<open>MaxCheck\<close>: products inspected per search. \<open>MaxResults\<close>: cap on products returned.\<close>

definition MaxCheck :: int where "MaxCheck = 100"
definition MaxResults :: nat where "MaxResults = 20"

text \<open>\<open>search.Result\<close>, the outcome of one search.\<close>

record Result =
  Products :: "Product list"
  TotalFound :: int
  SearchTime :: string
  Checked :: int

text \<open>
  \<open>strings.Contains\<close> of Go's library: whether \<open>substr\<close> occurs in \<open>s\<close> as a contiguous
  run of bytes; the empty string occurs in every string.
\<close>

fun HasPrefix :: "string \<Rightarrow> string \<Rightarrow> bool" where
  "HasPrefix s [] = True"
| "HasPrefix [] (c # cs) = False"
| "HasPrefix (d # ds) (c # cs) = (d = c \<and> HasPrefix ds cs)"

fun Contains :: "string \<Rightarrow> string \<Rightarrow> bool" where
  "Contains [] substr = HasPrefix [] substr"
| "Contains (d # ds) substr = (HasPrefix (d # ds) substr \<or> Contains ds substr)"

text \<open>
  The closure passed to \<open>Iterate\<close>. Its captured variables \<open>matches\<close> and \<open>totalFound\<close>
  are the state; it always returns true. \<open>strings.ToLower\<close> of Go's library maps every
  Unicode letter to lower case; it is a parameter of the model (\<open>ToLower\<close>), so what is
  proved holds whatever it does to a string.
\<close>

definition callback ::
  "(string \<Rightarrow> string) \<Rightarrow> string \<Rightarrow> Product \<Rightarrow> Product list \<times> int \<Rightarrow> bool \<times> (Product list \<times> int)" where
  "callback ToLower queryLower p st =
     (let matches = fst st; totalFound = snd st;
          nameLower = ToLower (Name p);
          catLower = ToLower (Category p)
      in if Contains nameLower queryLower \<or> Contains catLower queryLower
         then (True, (if length matches < MaxResults then matches @ [p] else matches, totalFound + 1))
         else (True, (matches, totalFound)))"

text \<open>
  \<open>Execute\<close>. The search time is read from the clock (\<open>time.Since(start).String()\<close>); the
  model is given it as \<open>elapsed\<close>.
\<close>

definition Execute :: "(string \<Rightarrow> string) \<Rightarrow> string \<Rightarrow> ProductStore \<Rightarrow> string \<Rightarrow> Result" where
  "Execute ToLower elapsed s query =
     (let queryLower = ToLower query;
          r = Iterate 1 MaxCheck (callback ToLower queryLower) s ([], 0)
      in \<lparr>Products = fst (snd r), TotalFound = snd (snd r), SearchTime = elapsed, Checked = fst r\<rparr>)"

text \<open>A product matches a query when its lowered name or category contains the lowered query.\<close>

definition is_match :: "(string \<Rightarrow> string) \<Rightarrow> string \<Rightarrow> Product \<Rightarrow> bool" where
  "is_match ToLower query p =
     (Contains (ToLower (Name p)) (ToLower query) \<or> Contains (ToLower (Category p)) (ToLower query))"

text \<open>\<open>strings.ToLower\<close> on ASCII text, for running examples.\<close>

definition ToLower_ascii :: "string \<Rightarrow> string" where
  "ToLower_ascii = map (\<lambda>c. if CHR ''A'' \<le> c \<and> c \<le> CHR ''Z'' then char_of (of_char c + (32::nat)) else c)"

section \<open>The concurrent map harness\<close>

text \<open>
  The harness starts 50 goroutines; goroutine \<open>g\<close> stores \<open>i\<close> under the key
  \<open>g * 1000 + i\<close> for \<open>i = 0 .. 999\<close>. \<open>key\<close> is that expression on mathematical
  integers, \<open>key64\<close> the same expression on Go's 64-bit \<open>int\<close>.
\<close>

definition key :: "int \<Rightarrow> int \<Rightarrow> int" where
  "key goroutineID i = goroutineID * 1000 + i"

definition key64 :: "64 word \<Rightarrow> 64 word \<Rightarrow> 64 word" where
  "key64 goroutineID i = goroutineID * 1000 + i"

text \<open>
  After \<open>wg.Wait()\<close> the program is sequential. The \<open>sync.Map\<close> is then given by its
  entries in the order in which \<open>Range\<close> enumerates them (an order the library does not
  fix). \<open>Range\<close> calls \<open>f\<close> on each entry in turn until \<open>f\<close> returns false; the closure's
  captured variables are the state.
\<close>

fun RangeMap :: "(int \<times> int) list \<Rightarrow> (int \<Rightarrow> int \<Rightarrow> 'a \<Rightarrow> bool \<times> 'a) \<Rightarrow> 'a \<Rightarrow> 'a" where
  "RangeMap [] f a = a"
| "RangeMap ((k, v) # es) f a = (let r = f k v a in if fst r then RangeMap es f (snd r) else snd r)"

text \<open>
  Output: each \<open>fmt.Printf\<close> call is recorded as its format string and its arguments.
  \<open>elapsed\<close> is a \<open>time.Duration\<close>, a number of nanoseconds read from the clock.
\<close>

datatype arg = IntArg int | DurationArg int

type_synonym printed = "(string \<times> arg list) list"

text \<open>The two closures passed to \<open>Range\<close>: counting, and printing the first five entries.\<close>

definition count_entry :: "int \<Rightarrow> int \<Rightarrow> int \<Rightarrow> bool \<times> int" where
  "count_entry k v cnt = (True, cnt + 1)"

definition print_entry :: "int \<Rightarrow> int \<Rightarrow> int \<times> printed \<Rightarrow> bool \<times> (int \<times> printed)" where
  "print_entry k v st =
     (let entryCount = fst st; out = snd st
      in if entryCount < 5
         then (True, (entryCount + 1, out @ [(''  Key: %v, Value: %v\<newline>'', [IntArg k, IntArg v])]))
         else (False, (entryCount, out)))"

text \<open>What \<open>main\<close> prints after \<open>wg.Wait()\<close>, given the map and the elapsed time.\<close>

definition main_report :: "(int \<times> int) list \<Rightarrow> int \<Rightarrow> printed" where
  "main_report m elapsed =
     (let cnt = RangeMap m count_entry 0;
          out = [(''Length of map: %d\<newline>'', [IntArg cnt]),
                 (''Total time taken: %v\<newline>'', [DurationArg elapsed]),
                 (''\<newline>Example: First few entries:\<newline>'', [])]
      in snd (RangeMap m print_entry (0, out)))"

text \<open>The line printed for one entry.\<close>

definition entry_line :: "int \<times> int \<Rightarrow> string \<times> arg list" where
  "entry_line e = (''  Key: %v, Value: %v\<newline>'', [IntArg (fst e), IntArg (snd e)])"

text \<open>
  The loop bounds of the harness, and the map it has written when all goroutines are
  done, enumerated from the largest key down.
\<close>

definition workers :: int where "workers = 50"
definition iterations :: int where "iterations = 1000"

definition written :: "(int \<times> int) list" where
  "written = map (\<lambda>n. (49999 - int n, (49999 - int n) mod 1000)) [0..<50000]"

section \<open>The atomic counter program\<close>

text \<open>
  500 goroutines each run \<open>atomicOps.Add(1)\<close> 1000 times. \<open>Add\<close> is one indivisible step
  on a \<open>uint64\<close>, and additions commute, so the counter after \<open>wg.Wait()\<close> is the result
  of the 500 goroutine bodies run one after the other. The plain counter
  \<open>nonAtomicOps\<close> is updated in a data race; its final value is not determined by the
  program and is not modelled.
\<close>

text \<open>\<open>for range n { body }\<close>.\<close>

primrec for_range :: "nat \<Rightarrow> ('s \<Rightarrow> 's) \<Rightarrow> 's \<Rightarrow> 's" where
  "for_range 0 body s = s"
| "for_range (Suc n) body s = for_range n body (body s)"

definition Add :: "64 word \<Rightarrow> 64 word \<Rightarrow> 64 word" where
  "Add delta atomicOps = atomicOps + delta"

definition goroutine :: "64 word \<Rightarrow> 64 word" where
  "goroutine atomicOps = for_range 1000 (Add 1) atomicOps"

definition atomicOps_final :: "64 word" where
  "atomicOps_final = for_range 500 goroutine 0"

text \<open>\<open>expected := uint64(500000)\<close> and \<open>atomicLost := expected - atomicOps.Load()\<close>.\<close>

definition expected :: "64 word" where
  "expected = 500000"

definition atomicLost :: "64 word" where
  "atomicLost = expected - atomicOps_final"

section \<open>Properties of the store\<close>

lemma Puts_Nil [simp]: "Puts [] s = s"
  by (simp add: Puts_def)

lemma Puts_Cons [simp]: "Puts (p # ps) s = Puts ps (Put p s)"
  by (simp add: Puts_def)

lemma Puts_snoc: "Puts (ps @ [p]) s = Put p (Puts ps s)"
  by (simp add: Puts_def)

lemma Count_Put: "Count (Put p s) = Count s + 1"
  by (simp add: Count_def Put_def)

lemma Count_Puts: "Count (Puts ps s) = Count s + int (length ps)"
  by (induction ps arbitrary: s) (simp_all add: Count_Put)

lemma data_Put: "data (Put p s) = (data s)(ID p \<mapsto> p)"
  by (simp add: Put_def)

lemma dom_data_Puts: "dom (data (Puts ps s)) = dom (data s) \<union> ID ` set ps"
  by (induction ps arbitrary: s) (auto simp: data_Put)

lemma data_Puts_other:
  "k \<notin> ID ` set ps \<Longrightarrow> data (Puts ps s) k = data s k"
  by (induction ps arbitrary: s) (auto simp: data_Put)

text \<open>Every product in a store built by \<open>Put\<close> alone sits under its own ID.\<close>

lemma data_Puts_New_ID:
  "data (Puts ps New) k = Some p \<Longrightarrow> ID p = k"
proof (induction ps arbitrary: k p rule: rev_induct)
  case Nil
  then show ?case by (simp add: New_def)
next
  case (snoc q qs)
  then show ?case
    by (cases "k = ID q") (auto simp: Puts_snoc data_Put)
qed

text \<open>
  Where all written IDs differ, the counter is the number of entries. This is the
  use the generator makes of the store (IDs \<open>1..100000\<close>, each written once).
\<close>

lemma Count_Puts_distinct:
  assumes "distinct (map ID ps)"
  shows "Count (Puts ps New) = int (card (dom (data (Puts ps New))))"
proof -
  have "card (ID ` set ps) = length ps"
    using assms by (metis distinct_card length_map set_map)
  then show ?thesis
    by (simp add: Count_Puts dom_data_Puts) (simp add: Count_def New_def)
qed

text \<open>
  C2. The claim: after any sequence of \<open>Put\<close> calls, \<open>Count\<close> is the number of distinct
  IDs written, also when an ID is written twice. The code adds one to the counter on
  every \<open>Put\<close>: writing product 1 twice into an empty store leaves one entry in the
  map and a \<open>Count\<close> of 2.
\<close>

theorem Count_after_repeated_Put:
  "Count (Puts [Product_zero\<lparr>ID := 1\<rparr>, Product_zero\<lparr>ID := 1\<rparr>] New) = 2
   \<and> card (dom (data (Puts [Product_zero\<lparr>ID := 1\<rparr>, Product_zero\<lparr>ID := 1\<rparr>] New))) = 1"
  by (simp add: Count_def Put_def New_def)

text \<open>
  C3. A \<open>Put\<close> of product \<open>p\<close>, followed by any number of \<open>Put\<close> calls for other IDs,
  followed by \<open>Get (ID p)\<close>, returns \<open>(p, true)\<close>.
\<close>

theorem Get_after_Put:
  "\<forall>q \<in> set qs. ID q \<noteq> ID p \<Longrightarrow> fst (Get (ID p) (Puts qs (Put p s))) = (p, True)"
proof -
  assume "\<forall>q \<in> set qs. ID q \<noteq> ID p"
  then have "ID p \<notin> ID ` set qs" by auto
  then have "data (Puts qs (Put p s)) (ID p) = data (Put p s) (ID p)"
    by (rule data_Puts_other)
  then show ?thesis by (simp add: Get_def data_Put)
qed

theorem Get_after_Put_witness:
  "ID (Product_zero\<lparr>ID := 2\<rparr>) \<noteq> ID (Product_zero\<lparr>ID := 1, Name := ''Mascara''\<rparr>)
   \<and> fst (Get 1 (Puts [Product_zero\<lparr>ID := 2\<rparr>] (Put (Product_zero\<lparr>ID := 1, Name := ''Mascara''\<rparr>) New)))
       = (Product_zero\<lparr>ID := 1, Name := ''Mascara''\<rparr>, True)"
  using Get_after_Put [of "[Product_zero\<lparr>ID := 2\<rparr>]" "Product_zero\<lparr>ID := 1, Name := ''Mascara''\<rparr>" New]
  by simp

text \<open>
  C6. \<open>Get\<close> of an ID that is not in the store returns the zero product with
  \<open>found = false\<close>, and the store is as it was.
\<close>

theorem Get_absent:
  "data s pid = None \<Longrightarrow> Get pid s = ((Product_zero, False), s)"
  by (simp add: Get_def)

theorem Get_absent_witness:
  "data (Put (Product_zero\<lparr>ID := 1\<rparr>) New) 7 = None
   \<and> Get 7 (Put (Product_zero\<lparr>ID := 1\<rparr>) New)
       = ((Product_zero, False), Put (Product_zero\<lparr>ID := 1\<rparr>) New)"
  using Get_absent [of "Put (Product_zero\<lparr>ID := 1\<rparr>) New" 7]
  by (simp add: Put_def New_def)

section \<open>Properties of Iterate\<close>

declare Iterate_loop.simps [simp del]

lemma Iterate_loop_walk:
  "Iterate_loop s tot maxCount fn pid visited acc
     = walk fn maxCount (List.map_filter (data s) [pid..tot]) visited acc"
proof (induction s tot maxCount fn pid visited acc rule: Iterate_loop.induct)
  case (1 s tot maxCount fn pid visited acc)
  show ?case
  proof (cases "pid \<le> tot")
    case False
    then show ?thesis by (simp add: Iterate_loop.simps [of s tot maxCount fn pid] map_filter_simps)
  next
    case le: True
    then have up: "[pid..tot] = pid # [pid + 1..tot]" by (simp add: upto_rec1)
    show ?thesis
    proof (cases "visited < maxCount")
      case False
      then show ?thesis
        by (cases "List.map_filter (data s) [pid..tot]")
           (simp_all add: Iterate_loop.simps [of s tot maxCount fn pid])
    next
      case lt: True
      show ?thesis
      proof (cases "data s pid")
        case None
        with le lt "1.IH"(1) show ?thesis
          by (simp add: Iterate_loop.simps [of s tot maxCount fn pid] up map_filter_simps)
      next
        case (Some v)
        with le lt "1.IH"(2) [OF _ Some refl] show ?thesis
          by (simp add: Iterate_loop.simps [of s tot maxCount fn pid] up map_filter_simps Let_def)
      qed
    qed
  qed
qed

lemma walk_observed:
  "walk (observed fn) m ps v (acc, log)
     = (fst (walk fn m ps v acc), (snd (walk fn m ps v acc), log @ calls fn m ps v acc))"
  by (induction ps arbitrary: v acc log) (simp_all add: observed_def Let_def)

lemma walk_count: "fst (walk fn m ps v acc) = v + int (length (calls fn m ps v acc))"
  by (induction ps arbitrary: v acc) (simp_all add: Let_def)

lemma calls_bound: "v + int (length (calls fn m ps v acc)) \<le> max v m"
proof (induction ps arbitrary: v acc)
  case Nil
  then show ?case by simp
next
  case (Cons p ps)
  from Cons.IH [of "v + 1" "snd (fn p acc)"] show ?case
    by (simp add: Let_def max_def split: if_splits)
qed

lemma calls_prefix: "map fst (calls fn m ps v acc) = take (length (calls fn m ps v acc)) ps"
  by (induction ps arbitrary: v acc) (simp_all add: Let_def)

lemma calls_continue: "c \<in> set (butlast (map snd (calls fn m ps v acc))) \<Longrightarrow> c"
  by (induction ps arbitrary: v acc) (auto simp: Let_def split: if_splits)

text \<open>Why the walk ends: the callback said stop, or the cap is reached, or no product is left.\<close>

lemma calls_stop:
  "(calls fn m ps v acc \<noteq> [] \<and> \<not> snd (last (calls fn m ps v acc)))
    \<or> v + int (length (calls fn m ps v acc)) = max v m
    \<or> map fst (calls fn m ps v acc) = ps"
proof (induction ps arbitrary: v acc)
  case Nil
  then show ?case by simp
next
  case (Cons p ps)
  show ?case
  proof (cases "v < m")
    case False
    then show ?thesis by simp
  next
    case lt: True
    show ?thesis
    proof (cases "fst (fn p acc)")
      case False
      with lt show ?thesis by (simp add: Let_def)
    next
      case True
      let ?rest = "calls fn m ps (v + 1) (snd (fn p acc))"
      have cs: "calls fn m (p # ps) v acc = (p, True) # ?rest"
        using lt True by (simp add: Let_def)
      from Cons.IH [of "v + 1" "snd (fn p acc)"]
      consider "?rest \<noteq> [] \<and> \<not> snd (last ?rest)"
        | "v + 1 + int (length ?rest) = max (v + 1) m"
        | "map fst ?rest = ps"
        by blast
      then show ?thesis
      proof cases
        case 1
        then show ?thesis unfolding cs by simp
      next
        case 2
        with lt show ?thesis unfolding cs by simp
      next
        case 3
        then show ?thesis unfolding cs by simp
      qed
    qed
  qed
qed

text \<open>The final state and the logged flags are the callback's own, state threaded in order.\<close>

lemma walk_state:
  "snd (walk fn m ps v acc) = fold (\<lambda>p a. snd (fn p a)) (map fst (calls fn m ps v acc)) acc"
  by (induction ps arbitrary: v acc) (simp_all add: Let_def)

lemma calls_flags:
  "i < length (calls fn m ps v acc) \<Longrightarrow>
     snd (calls fn m ps v acc ! i)
       = fst (fn (fst (calls fn m ps v acc ! i))
                (fold (\<lambda>p a. snd (fn p a)) (take i (map fst (calls fn m ps v acc))) acc))"
proof (induction ps arbitrary: v acc i)
  case Nil
  then show ?case by simp
next
  case (Cons p ps)
  show ?case
  proof (cases "v < m")
    case False
    with Cons.prems show ?thesis by simp
  next
    case lt: True
    show ?thesis
    proof (cases i)
      case 0
      with lt show ?thesis by (simp add: Let_def)
    next
      case (Suc j)
      show ?thesis
      proof (cases "fst (fn p acc)")
        case False
        with lt Suc Cons.prems show ?thesis by (simp add: Let_def)
      next
        case True
        let ?rest = "calls fn m ps (v + 1) (snd (fn p acc))"
        have cs: "calls fn m (p # ps) v acc = (p, True) # ?rest"
          using lt True by (simp add: Let_def)
        from Cons.prems Suc have "j < length ?rest" unfolding cs by simp
        from Cons.IH [OF this] show ?thesis unfolding cs Suc by simp
      qed
    qed
  qed
qed

lemma stored_members:
  "p \<in> set (stored s startID) \<Longrightarrow> \<exists>k. startID \<le> k \<and> k \<le> count s \<and> data s k = Some p"
  by (auto simp: stored_def List.map_filter_def)

lemma Iterate_walk: "Iterate startID maxCount fn s acc = walk fn maxCount (stored s startID) 0 acc"
  by (simp add: Iterate_def stored_def Iterate_loop_walk)

text \<open>
  C8. For a store built by \<open>Put\<close> calls: \<open>Iterate\<close> returns the number of callback
  invocations, which is at most \<open>maxCount\<close> (and 0 when \<open>maxCount\<close> is negative); the
  products visited are an initial segment of the products stored under the IDs
  \<open>startID .. Count()\<close>, so absent IDs are neither visited nor counted; every callback
  invocation but the last returned true, so the walk stops at the first false; every
  visited product has its ID in \<open>startID .. Count()\<close>; \<open>Count()\<close> is the number of \<open>Put\<close>
  calls, and a product stored under a larger ID is never visited. Wrapping the callback
  to log its invocations changes neither the count nor the callback's final state.

  The walk ends for one of three reasons only: the last callback invocation returned
  false, or \<open>maxCount\<close> products have been visited, or every product stored under the IDs
  \<open>startID .. Count()\<close> has been visited. Each logged flag is what the callback returns
  on that product in the state left by the earlier invocations, and the final state is
  the callback's, threaded through the visited products in order. Together these fix
  the result: it is \<open>walk\<close> over the stored products, and the log is \<open>calls\<close>.
\<close>

theorem Iterate_visits:
  assumes "s = Puts ps New"
    and "r = Iterate startID maxCount fn s acc"
    and "cs = Iterate_calls startID maxCount fn s acc"
  shows "Iterate startID maxCount (observed fn) s (acc, []) = (fst r, (snd r, cs))
    \<and> fst r = int (length cs) \<and> fst r \<le> max 0 maxCount
    \<and> map fst cs = take (length cs) (stored s startID)
    \<and> (\<forall>p \<in> set (map fst cs). startID \<le> ID p \<and> ID p \<le> Count s \<and> data s (ID p) = Some p)
    \<and> (\<forall>c \<in> set (butlast (map snd cs)). c)
    \<and> Count s = int (length ps)
    \<and> (\<forall>k q. data s k = Some q \<and> Count s < k \<longrightarrow> q \<notin> set (map fst cs))
    \<and> ((cs \<noteq> [] \<and> \<not> snd (last cs))
         \<or> int (length cs) = max 0 maxCount
         \<or> map fst cs = stored s startID)
    \<and> (\<forall>i < length cs.
          snd (cs ! i)
            = fst (fn (fst (cs ! i)) (fold (\<lambda>p a. snd (fn p a)) (take i (map fst cs)) acc)))
    \<and> snd r = fold (\<lambda>p a. snd (fn p a)) (map fst cs) acc
    \<and> r = walk fn maxCount (stored s startID) 0 acc
    \<and> cs = calls fn maxCount (stored s startID) 0 acc"
proof -
  let ?st = "stored s startID"
  have cs: "cs = calls fn maxCount ?st 0 acc"
    by (simp add: assms(3) Iterate_calls_def Iterate_walk walk_observed)
  have r: "r = walk fn maxCount ?st 0 acc"
    by (simp add: assms(2) Iterate_walk)
  have obs: "Iterate startID maxCount (observed fn) s (acc, []) = (fst r, (snd r, cs))"
    by (simp add: cs r Iterate_walk walk_observed)
  have len: "fst r = int (length cs)"
    using walk_count [of fn maxCount ?st 0 acc] by (simp add: cs r)
  have bound: "fst r \<le> max 0 maxCount"
    using calls_bound [of 0 fn maxCount ?st acc] len by (simp add: cs)
  have pre: "map fst cs = take (length cs) ?st"
    unfolding cs by (rule calls_prefix)
  have cnt: "Count s = int (length ps)"
    by (simp add: assms(1) Count_Puts) (simp add: Count_def New_def)
  have mem: "startID \<le> ID p \<and> ID p \<le> Count s \<and> data s (ID p) = Some p"
    if "p \<in> set (map fst cs)" for p
  proof -
    from that pre have "p \<in> set ?st" by (metis in_set_takeD)
    then obtain k where k: "startID \<le> k" "k \<le> count s" "data s k = Some p"
      using stored_members by blast
    from k(3) have "ID p = k" unfolding assms(1) by (rule data_Puts_New_ID)
    with k show ?thesis by (simp add: Count_def)
  qed
  have cont: "c" if "c \<in> set (butlast (map snd cs))" for c
    using that unfolding cs by (rule calls_continue)
  have unreach: "q \<notin> set (map fst cs)" if "data s k = Some q \<and> Count s < k" for k q
  proof
    assume "q \<in> set (map fst cs)"
    then have "ID q \<le> Count s" using mem by blast
    moreover from that have "ID q = k" unfolding assms(1) by (blast dest: data_Puts_New_ID)
    ultimately show False using that by simp
  qed
  have stop: "(cs \<noteq> [] \<and> \<not> snd (last cs))
      \<or> int (length cs) = max 0 maxCount \<or> map fst cs = ?st"
    using calls_stop [of fn maxCount ?st 0 acc] unfolding cs by simp
  have flags: "\<forall>i < length cs.
      snd (cs ! i) = fst (fn (fst (cs ! i)) (fold (\<lambda>p a. snd (fn p a)) (take i (map fst cs)) acc))"
    unfolding cs by (intro allI impI) (rule calls_flags)
  have state: "snd r = fold (\<lambda>p a. snd (fn p a)) (map fst cs) acc"
    unfolding cs r by (rule walk_state)
  have old: "Iterate startID maxCount (observed fn) s (acc, []) = (fst r, (snd r, cs))
    \<and> fst r = int (length cs) \<and> fst r \<le> max 0 maxCount
    \<and> map fst cs = take (length cs) (stored s startID)
    \<and> (\<forall>p \<in> set (map fst cs). startID \<le> ID p \<and> ID p \<le> Count s \<and> data s (ID p) = Some p)
    \<and> (\<forall>c \<in> set (butlast (map snd cs)). c)
    \<and> Count s = int (length ps)
    \<and> (\<forall>k q. data s k = Some q \<and> Count s < k \<longrightarrow> q \<notin> set (map fst cs))"
    using obs len bound pre mem cont cnt unreach by blast
  have new: "((cs \<noteq> [] \<and> \<not> snd (last cs))
         \<or> int (length cs) = max 0 maxCount
         \<or> map fst cs = stored s startID)
    \<and> (\<forall>i < length cs.
          snd (cs ! i)
            = fst (fn (fst (cs ! i)) (fold (\<lambda>p a. snd (fn p a)) (take i (map fst cs)) acc)))
    \<and> snd r = fold (\<lambda>p a. snd (fn p a)) (map fst cs) acc
    \<and> r = walk fn maxCount (stored s startID) 0 acc
    \<and> cs = calls fn maxCount (stored s startID) 0 acc"
    by (intro conjI stop flags state r cs)
  from old new show ?thesis by (elim conjE, intro conjI) assumption+
qed

theorem Iterate_visits_witness:
  "Iterate 1 10 (\<lambda>p n. (ID p < 3, n + 1))
       (Puts [Product_zero\<lparr>ID := 3\<rparr>, Product_zero\<lparr>ID := 1\<rparr>, Product_zero\<lparr>ID := 7\<rparr>] New) (0::nat)
     = (2, 2)
   \<and> Iterate_calls 1 10 (\<lambda>p n. (ID p < 3, n + 1))
       (Puts [Product_zero\<lparr>ID := 3\<rparr>, Product_zero\<lparr>ID := 1\<rparr>, Product_zero\<lparr>ID := 7\<rparr>] New) (0::nat)
     = [(Product_zero\<lparr>ID := 1\<rparr>, True), (Product_zero\<lparr>ID := 3\<rparr>, False)]
   \<and> Count (Puts [Product_zero\<lparr>ID := 3\<rparr>, Product_zero\<lparr>ID := 1\<rparr>, Product_zero\<lparr>ID := 7\<rparr>] New) = 3
   \<and> data (Puts [Product_zero\<lparr>ID := 3\<rparr>, Product_zero\<lparr>ID := 1\<rparr>, Product_zero\<lparr>ID := 7\<rparr>] New) 7
     = Some (Product_zero\<lparr>ID := 7\<rparr>)
   \<and> Product_zero\<lparr>ID := 7\<rparr> \<notin> set (map fst (Iterate_calls 1 10 (\<lambda>p n. (ID p < 3, n + 1))
       (Puts [Product_zero\<lparr>ID := 3\<rparr>, Product_zero\<lparr>ID := 1\<rparr>, Product_zero\<lparr>ID := 7\<rparr>] New) (0::nat)))
   \<and> stored (Puts [Product_zero\<lparr>ID := 3\<rparr>, Product_zero\<lparr>ID := 1\<rparr>, Product_zero\<lparr>ID := 7\<rparr>] New) 1 = [Product_zero\<lparr>ID := 1\<rparr>, Product_zero\<lparr>ID := 3\<rparr>]
   \<and> Iterate 1 10 (\<lambda>p n. (True, n + 1)) (Puts [Product_zero\<lparr>ID := 3\<rparr>, Product_zero\<lparr>ID := 1\<rparr>, Product_zero\<lparr>ID := 7\<rparr>] New) (0::nat) = (2, 2)
   \<and> Iterate 1 1 (\<lambda>p n. (True, n + 1)) (Puts [Product_zero\<lparr>ID := 3\<rparr>, Product_zero\<lparr>ID := 1\<rparr>, Product_zero\<lparr>ID := 7\<rparr>] New) (0::nat) = (1, 1)
   \<and> Iterate 1 10 (\<lambda>p n. (True, n + 1)) (Puts [Product_zero\<lparr>ID := 1\<rparr>, Product_zero\<lparr>ID := 2\<rparr>, Product_zero\<lparr>ID := 3\<rparr>] New) (0::nat) = (3, 3)"
proof -
  let ?s = "Puts [Product_zero\<lparr>ID := 3\<rparr>, Product_zero\<lparr>ID := 1\<rparr>, Product_zero\<lparr>ID := 7\<rparr>] New"
  let ?fn = "\<lambda>p (n::nat). (ID p < 3, n + 1)"
  have run: "Iterate 1 10 ?fn ?s 0 = (2, 2)"
    by code_simp
  have log: "Iterate_calls 1 10 ?fn ?s 0
      = [(Product_zero\<lparr>ID := 1\<rparr>, True), (Product_zero\<lparr>ID := 3\<rparr>, False)]"
    by code_simp
  have seven: "data ?s 7 = Some (Product_zero\<lparr>ID := 7\<rparr>)"
    by (simp add: Put_def New_def)
  note all = Iterate_visits [OF refl refl refl,
      where ps = "[Product_zero\<lparr>ID := 3\<rparr>, Product_zero\<lparr>ID := 1\<rparr>, Product_zero\<lparr>ID := 7\<rparr>]"
        and startID = 1 and maxCount = 10 and fn = ?fn and acc = 0]
  from all have cnt: "Count ?s = 3" by simp
  from all have far: "\<forall>k q. data ?s k = Some q \<and> Count ?s < k
      \<longrightarrow> q \<notin> set (map fst (Iterate_calls 1 10 ?fn ?s 0))"
    by blast
  have "Product_zero\<lparr>ID := 7\<rparr> \<notin> set (map fst (Iterate_calls 1 10 ?fn ?s 0))"
  proof (rule far [rule_format])
    show "data ?s 7 = Some (Product_zero\<lparr>ID := 7\<rparr>) \<and> Count ?s < 7"
      unfolding cnt using seven by simp
  qed
  moreover have "stored ?s 1 = [Product_zero\<lparr>ID := 1\<rparr>, Product_zero\<lparr>ID := 3\<rparr>]"
    by code_simp
  moreover have "Iterate 1 10 (\<lambda>p n. (True, n + 1)) ?s (0::nat) = (2, 2)"
    by code_simp
  moreover have "Iterate 1 1 (\<lambda>p n. (True, n + 1)) ?s (0::nat) = (1, 1)"
    by code_simp
  moreover have "Iterate 1 10 (\<lambda>p n. (True, n + 1)) (Puts [Product_zero\<lparr>ID := 1\<rparr>, Product_zero\<lparr>ID := 2\<rparr>, Product_zero\<lparr>ID := 3\<rparr>] New) (0::nat) = (3, 3)"
    by code_simp
  ultimately show ?thesis using run log cnt seven by (intro conjI) assumption+
qed

section \<open>Properties of the search\<close>

text \<open>\<open>Contains\<close> is the substring relation.\<close>

lemma HasPrefix_iff: "HasPrefix s t \<longleftrightarrow> prefix t s"
  by (induction s t rule: HasPrefix.induct) auto

lemma Contains_iff: "Contains s t \<longleftrightarrow> (\<exists>us vs. s = us @ t @ vs)"
proof (induction s)
  case Nil
  then show ?case by (cases t) simp_all
next
  case (Cons d ds)
  show ?case
  proof
    assume "Contains (d # ds) t"
    then consider "prefix t (d # ds)" | "Contains ds t" by (auto simp: HasPrefix_iff)
    then show "\<exists>us vs. d # ds = us @ t @ vs"
    proof cases
      case 1
      then obtain vs where "d # ds = t @ vs" by (auto simp: prefix_def)
      then have "d # ds = [] @ t @ vs" by simp
      then show ?thesis by blast
    next
      case 2
      with Cons obtain us vs where "ds = us @ t @ vs" by blast
      then have "d # ds = (d # us) @ t @ vs" by simp
      then show ?thesis by blast
    qed
  next
    assume "\<exists>us vs. d # ds = us @ t @ vs"
    then obtain us vs where e: "d # ds = us @ t @ vs" by blast
    show "Contains (d # ds) t"
    proof (cases us)
      case Nil
      with e have "prefix t (d # ds)" by (simp add: prefix_def)
      then show ?thesis by (simp add: HasPrefix_iff)
    next
      case (Cons u us')
      with e have "ds = us' @ t @ vs" by simp
      with Cons.IH show ?thesis by auto
    qed
  qed
qed


lemma walk_always:
  assumes "\<And>p a. fst (fn p a)"
  shows "walk fn m ps v acc
    = (v + int (length (take (nat (m - v)) ps)), fold (\<lambda>p a. snd (fn p a)) (take (nat (m - v)) ps) acc)"
proof (induction ps arbitrary: v acc)
  case Nil
  then show ?case by simp
next
  case (Cons p ps)
  show ?case
  proof (cases "v < m")
    case True
    then have "nat (m - v) = Suc (nat (m - (v + 1)))" by simp
    with True assms Cons.IH [of "v + 1" "snd (fn p acc)"] show ?thesis
      by (simp add: Let_def)
  next
    case False
    then show ?thesis by simp
  qed
qed

lemma calls_always:
  assumes "\<And>p a. fst (fn p a)"
  shows "map fst (calls fn m ps v acc) = take (nat (m - v)) ps"
proof (induction ps arbitrary: v acc)
  case Nil
  then show ?case by simp
next
  case (Cons p ps)
  show ?case
  proof (cases "v < m")
    case True
    then have "nat (m - v) = Suc (nat (m - (v + 1)))" by simp
    with True assms Cons.IH [of "v + 1" "snd (fn p acc)"] show ?thesis
      by (simp add: Let_def)
  next
    case False
    then show ?thesis by simp
  qed
qed

lemma callback_continues: "fst (callback L q p a)"
  by (simp add: callback_def Let_def)

lemma callback_step:
  "snd (callback L (L query) p (ms, tf))
     = (if is_match L query p
        then (if length ms < MaxResults then ms @ [p] else ms, tf + 1) else (ms, tf))"
  by (simp add: callback_def is_match_def Let_def)

lemma fold_callback:
  "fold (\<lambda>p a. snd (callback L (L query) p a)) xs (ms, tf)
     = (ms @ take (MaxResults - length ms) (filter (is_match L query) xs),
        tf + int (length (filter (is_match L query) xs)))"
proof (induction xs arbitrary: ms tf)
  case Nil
  then show ?case by simp
next
  case (Cons p xs)
  show ?case
  proof (cases "is_match L query p")
    case False
    then show ?thesis by (simp add: Cons.IH callback_step)
  next
    case m: True
    show ?thesis
    proof (cases "length ms < MaxResults")
      case True
      then have "MaxResults - length ms = Suc (MaxResults - Suc (length ms))" by simp
      with True m show ?thesis
        by (simp add: Cons.IH callback_step)
    next
      case False
      with m show ?thesis
        by (simp add: Cons.IH callback_step)
    qed
  qed
qed

text \<open>
  C9. For every store and query, with \<open>cs\<close> the products the callback is called on:
  \<open>Execute\<close> returns at most 20 products; the lowered name or the lowered category of each
  contains the lowered query; \<open>TotalFound\<close> is the number of matching products among \<open>cs\<close>
  and is at least the number of returned products; \<open>Checked\<close> is the length of \<open>cs\<close> and at
  most 100. Moreover \<open>cs\<close> is the first 100 products stored under IDs \<open>1 .. Count()\<close>, and
  the returned products are the first 20 matches among them.
\<close>

theorem Execute_bounded:
  assumes "r = Execute ToLower elapsed s query"
    and "cs = map fst (Iterate_calls 1 MaxCheck (callback ToLower (ToLower query)) s ([], 0))"
  shows "length (Products r) \<le> 20
    \<and> (\<forall>p \<in> set (Products r).
          Contains (ToLower (Name p)) (ToLower query) \<or> Contains (ToLower (Category p)) (ToLower query))
    \<and> TotalFound r = int (length (filter (is_match ToLower query) cs))
    \<and> int (length (Products r)) \<le> TotalFound r
    \<and> Checked r = int (length cs) \<and> Checked r \<le> 100
    \<and> cs = take 100 (stored s 1)
    \<and> Products r = take 20 (filter (is_match ToLower query) cs)"
proof -
  let ?M = "is_match ToLower query"
  let ?cb = "callback ToLower (ToLower query)"
  have cs: "cs = take 100 (stored s 1)"
    using calls_always [of ?cb MaxCheck "stored s 1" 0 "([], 0)"]
    by (simp add: assms(2) Iterate_calls_def Iterate_walk walk_observed callback_continues MaxCheck_def)
  have run: "Iterate 1 MaxCheck ?cb s ([], 0)
      = (int (length cs), (take 20 (filter ?M cs), int (length (filter ?M cs))))"
    using walk_always [of ?cb MaxCheck "stored s 1" 0 "([], 0)"]
    by (simp add: Iterate_walk callback_continues fold_callback cs MaxCheck_def MaxResults_def)
  have prods: "Products r = take 20 (filter ?M cs)"
    and tf: "TotalFound r = int (length (filter ?M cs))"
    and ch: "Checked r = int (length cs)"
    by (simp_all add: assms(1) Execute_def Let_def run)
  have "length (Products r) \<le> 20" by (simp add: prods)
  moreover have "\<forall>p \<in> set (Products r).
      Contains (ToLower (Name p)) (ToLower query) \<or> Contains (ToLower (Category p)) (ToLower query)"
  proof
    fix p assume "p \<in> set (Products r)"
    then have "p \<in> set (filter ?M cs)" unfolding prods by (rule in_set_takeD)
    then show "Contains (ToLower (Name p)) (ToLower query) \<or> Contains (ToLower (Category p)) (ToLower query)"
      by (simp add: is_match_def)
  qed
  moreover have "int (length (Products r)) \<le> TotalFound r" by (simp add: prods tf)
  moreover have "Checked r \<le> 100" by (simp add: ch cs)
  ultimately show ?thesis using prods tf ch cs by blast
qed


theorem Execute_bounded_witness:
  "Execute ToLower_ascii ''1ms''
      (Puts [\<lparr>ID = 1, Name = ''Red Lipstick'', Category = ''beauty'', Description = [], Brand = ''Glam'', Price = 0\<rparr>,
             \<lparr>ID = 2, Name = ''Laptop'', Category = ''electronics'', Description = [], Brand = ''Generic'', Price = 0\<rparr>,
             \<lparr>ID = 3, Name = ''Beauty Blender'', Category = ''tools'', Description = [], Brand = ''Generic'', Price = 0\<rparr>] New)
      ''BEAUTY''
    = \<lparr>Products =
         [\<lparr>ID = 1, Name = ''Red Lipstick'', Category = ''beauty'', Description = [], Brand = ''Glam'', Price = 0\<rparr>,
          \<lparr>ID = 3, Name = ''Beauty Blender'', Category = ''tools'', Description = [], Brand = ''Generic'', Price = 0\<rparr>],
       TotalFound = 2, SearchTime = ''1ms'', Checked = 3\<rparr>
   \<and> length (Products (Execute ToLower_ascii ''1ms''
      (Puts [\<lparr>ID = 1, Name = ''Red Lipstick'', Category = ''beauty'', Description = [], Brand = ''Glam'', Price = 0\<rparr>,
             \<lparr>ID = 2, Name = ''Laptop'', Category = ''electronics'', Description = [], Brand = ''Generic'', Price = 0\<rparr>,
             \<lparr>ID = 3, Name = ''Beauty Blender'', Category = ''tools'', Description = [], Brand = ''Generic'', Price = 0\<rparr>] New)
      ''BEAUTY'')) \<le> 20
   \<and> Checked (Execute ToLower_ascii ''1ms''
      (Puts [\<lparr>ID = 1, Name = ''Red Lipstick'', Category = ''beauty'', Description = [], Brand = ''Glam'', Price = 0\<rparr>,
             \<lparr>ID = 2, Name = ''Laptop'', Category = ''electronics'', Description = [], Brand = ''Generic'', Price = 0\<rparr>,
             \<lparr>ID = 3, Name = ''Beauty Blender'', Category = ''tools'', Description = [], Brand = ''Generic'', Price = 0\<rparr>] New)
      ''BEAUTY'') \<le> 100"
proof -
  let ?s = "Puts [\<lparr>ID = 1, Name = ''Red Lipstick'', Category = ''beauty'', Description = [], Brand = ''Glam'', Price = 0\<rparr>,
             \<lparr>ID = 2, Name = ''Laptop'', Category = ''electronics'', Description = [], Brand = ''Generic'', Price = 0\<rparr>,
             \<lparr>ID = 3, Name = ''Beauty Blender'', Category = ''tools'', Description = [], Brand = ''Generic'', Price = 0\<rparr>] New"
  have run: "Execute ToLower_ascii ''1ms'' ?s ''BEAUTY''
    = \<lparr>Products =
         [\<lparr>ID = 1, Name = ''Red Lipstick'', Category = ''beauty'', Description = [], Brand = ''Glam'', Price = 0\<rparr>,
          \<lparr>ID = 3, Name = ''Beauty Blender'', Category = ''tools'', Description = [], Brand = ''Generic'', Price = 0\<rparr>],
       TotalFound = 2, SearchTime = ''1ms'', Checked = 3\<rparr>"
    by code_simp
  from Execute_bounded [OF refl refl, of ToLower_ascii "''1ms''" ?s "''BEAUTY''"]
  have "length (Products (Execute ToLower_ascii ''1ms'' ?s ''BEAUTY'')) \<le> 20"
    and "Checked (Execute ToLower_ascii ''1ms'' ?s ''BEAUTY'') \<le> 100"
    by blast+
  with run show ?thesis by blast
qed

section \<open>Properties of the seed data\<close>

lemma seeds_loop_map: "seeds_loop ps seeds = seeds @ map seed_of ps"
  by (induction ps arbitrary: seeds) simp_all

lemma seed_of_Brand:
  "SeedProduct.Brand (seed_of p)
     = (if dummyJSONProduct.Brand p = [] then ''Generic'' else dummyJSONProduct.Brand p)"
  by (simp add: seed_of_def)

lemma seed_of_Brand_nonempty: "SeedProduct.Brand (seed_of p) \<noteq> []"
  by (simp add: seed_of_Brand)

text \<open>
  C10. When \<open>Load\<close> returns seeds (it did not end the process), the list is not empty,
  every seed has a non-empty brand, there is one seed per product of the decoded API
  response, and the seed of a product whose brand is empty has the brand \<open>Generic\<close>, while
  any other brand is kept.
\<close>

theorem Load_Brand_nonempty:
  assumes "Load get Unmarshal = Inr seeds"
  shows "seeds \<noteq> []
    \<and> (\<forall>sp \<in> set seeds. SeedProduct.Brand sp \<noteq> [])
    \<and> (\<exists>resp body apiResp.
          get = Inr resp \<and> StatusCode resp = 200 \<and> Body resp = (body, None) \<and> Unmarshal body = Inr apiResp
          \<and> length seeds = length (dummyJSONResponse.Products apiResp)
          \<and> (\<forall>i < length seeds.
                SeedProduct.Brand (seeds ! i)
                  = (if dummyJSONProduct.Brand (dummyJSONResponse.Products apiResp ! i) = [] then ''Generic''
                     else dummyJSONProduct.Brand (dummyJSONResponse.Products apiResp ! i))))"
proof -
  from assms obtain resp where get: "get = Inr resp"
    by (cases get) (simp_all add: Load_def)
  from assms get have st: "StatusCode resp = 200"
    by (simp add: Load_def StatusOK_def split: if_splits)
  from assms get st have rd: "snd (Body resp) = None"
    by (simp add: Load_def StatusOK_def split: option.splits)
  define body where "body = fst (Body resp)"
  from rd have bd: "Body resp = (body, None)"
    by (simp add: body_def prod_eq_iff)
  from assms get st bd obtain apiResp where um: "Unmarshal body = Inr apiResp"
    by (cases "Unmarshal body") (simp_all add: Load_def StatusOK_def)
  from assms get st bd um
  have seeds: "seeds = map seed_of (dummyJSONResponse.Products apiResp)" and ne: "seeds \<noteq> []"
    by (auto simp: Load_def StatusOK_def seeds_loop_map Let_def split: if_splits)
  note env = get st bd um
  have "\<forall>sp \<in> set seeds. SeedProduct.Brand sp \<noteq> []"
    by (auto simp: seeds seed_of_Brand_nonempty)
  moreover have "length seeds = length (dummyJSONResponse.Products apiResp)"
    by (simp add: seeds)
  moreover have "\<forall>i < length seeds.
      SeedProduct.Brand (seeds ! i)
        = (if dummyJSONProduct.Brand (dummyJSONResponse.Products apiResp ! i) = [] then ''Generic''
           else dummyJSONProduct.Brand (dummyJSONResponse.Products apiResp ! i))"
    by (simp add: seeds seed_of_Brand)
  ultimately show ?thesis using env ne by blast
qed

theorem Load_Brand_nonempty_witness:
  "Load (Inr \<lparr>StatusCode = 200, Body = (''{..}'', None)\<rparr>)
        (\<lambda>body. Inr \<lparr>dummyJSONResponse.Products =
            [\<lparr>Title = ''Essence Mascara'', Description = ''Lash'', Category = ''beauty'', Price = 0, Brand = ''Essence''\<rparr>,
             \<lparr>Title = ''Apple'', Description = ''Fruit'', Category = ''groceries'', Price = 0, Brand = []\<rparr>],
           Total = 2\<rparr>)
     = Inr [\<lparr>SeedProduct.Name = ''Essence Mascara'', Category = ''beauty'', Description = ''Lash'', Brand = ''Essence'', Price = 0\<rparr>,
            \<lparr>SeedProduct.Name = ''Apple'', Category = ''groceries'', Description = ''Fruit'', Brand = ''Generic'', Price = 0\<rparr>]
   \<and> SeedProduct.Brand \<lparr>SeedProduct.Name = ''Apple'', Category = ''groceries'', Description = ''Fruit'', Brand = ''Generic'', Price = 0\<rparr> \<noteq> []"
proof -
  let ?get = "Inr \<lparr>StatusCode = 200, Body = (''{..}'', None)\<rparr> :: string + Response"
  let ?um = "\<lambda>body :: string. Inr \<lparr>dummyJSONResponse.Products =
            [\<lparr>Title = ''Essence Mascara'', Description = ''Lash'', Category = ''beauty'', Price = 0, Brand = ''Essence''\<rparr>,
             \<lparr>Title = ''Apple'', Description = ''Fruit'', Category = ''groceries'', Price = 0, Brand = []\<rparr>],
           Total = 2\<rparr> :: string + dummyJSONResponse"
  let ?apple = "\<lparr>SeedProduct.Name = ''Apple'', Category = ''groceries'', Description = ''Fruit'', Brand = ''Generic'', Price = 0\<rparr>"
  have run: "Load ?get ?um
     = Inr [\<lparr>SeedProduct.Name = ''Essence Mascara'', Category = ''beauty'', Description = ''Lash'', Brand = ''Essence'', Price = 0\<rparr>,
            ?apple]"
    by (simp add: Load_def StatusOK_def seed_of_def)
  from Load_Brand_nonempty [OF run]
  have "SeedProduct.Brand ?apple \<noteq> []" by simp
  with run show ?thesis by blast
qed

section \<open>Properties of the map harness\<close>

text \<open>
  For worker indices below 9223372036854775 and iteration indices below 1000, Go's 64-bit
  computation of the key does not wrap: it is \<open>key\<close>.
\<close>

lemma key64_no_wrap:
  assumes "0 \<le> g" "g < 9223372036854775" "0 \<le> i" "i < 1000"
  shows "sint (key64 (word_of_int g) (word_of_int i)) = key g i"
proof -
  have eq: "key64 (word_of_int g) (word_of_int i) = word_of_int (g * 1000 + i)"
    by (simp add: key64_def)
  have "signed_take_bit (LENGTH(64) - 1) (g * 1000 + i) = g * 1000 + i"
    using assms by (intro signed_take_bit_int_eq_self) simp_all
  then have "sint (word_of_int (g * 1000 + i) :: 64 word) = g * 1000 + i"
    by (simp only: sint_sbintrunc')
  then show ?thesis
    by (simp only: eq key_def)
qed

lemma count_entry_step: "count_entry k v c = (True, c + 1)"
  by (simp add: count_entry_def)

lemma RangeMap_count: "RangeMap m count_entry c = c + int (length m)"
  by (induction m arbitrary: c) (auto simp: count_entry_step)

lemma print_entry_step:
  "print_entry k v (n, out)
     = (if n < 5 then (True, (n + 1, out @ [(''  Key: %v, Value: %v\<newline>'', [IntArg k, IntArg v])]))
        else (False, (n, out)))"
  by (simp add: print_entry_def)

lemma RangeMap_print:
  "snd (RangeMap m print_entry (n, out)) = out @ map entry_line (take (nat (5 - n)) m)"
proof (induction m arbitrary: n out)
  case Nil
  then show ?case by simp
next
  case (Cons e m)
  obtain k v where e: "e = (k, v)" by (cases e)
  show ?case
  proof (cases "n < 5")
    case True
    then have "nat (5 - n) = Suc (nat (5 - (n + 1)))" by simp
    with True show ?thesis
      by (simp add: e print_entry_step Cons.IH entry_line_def)
  next
    case False
    then show ?thesis by (simp add: e print_entry_step)
  qed
qed

text \<open>\<open>written\<close> holds exactly the entries \<open>key g i \<mapsto> i\<close> of the 50 goroutines, each key once.\<close>

lemma set_written:
  "set written = (\<lambda>(g, i). (key g i, i)) ` ({0..<workers} \<times> {0..<iterations})"
proof (rule set_eqI, rule iffI)
  fix e assume "e \<in> set written"
  then obtain n where n: "n < 50000" and e: "e = (49999 - int n, (49999 - int n) mod 1000)"
    by (auto simp: written_def)
  let ?k = "49999 - int n"
  have "?k div 1000 \<in> {0..<workers}" "?k mod 1000 \<in> {0..<iterations}"
    using n by (auto simp: workers_def iterations_def)
  moreover have "e = (key (?k div 1000) (?k mod 1000), ?k mod 1000)"
    by (simp add: e key_def)
  ultimately show "e \<in> (\<lambda>(g, i). (key g i, i)) ` ({0..<workers} \<times> {0..<iterations})"
    by (intro image_eqI [where x = "(?k div 1000, ?k mod 1000)"]) auto
next
  fix e assume "e \<in> (\<lambda>(g, i). (key g i, i)) ` ({0..<workers} \<times> {0..<iterations})"
  then obtain g i where gi: "0 \<le> g" "g < 50" "0 \<le> i" "i < 1000" and e: "e = (key g i, i)"
    by (auto simp: workers_def iterations_def)
  define n where "n = nat (49999 - key g i)"
  have k: "0 \<le> key g i" "key g i \<le> 49999" using gi by (simp_all add: key_def)
  then have "n < 50000" "49999 - int n = key g i" by (simp_all add: n_def)
  moreover have "key g i mod 1000 = i" using gi by (simp add: key_def)
  ultimately have "e = (49999 - int n, (49999 - int n) mod 1000)" "n \<in> set [0..<50000]"
    by (simp_all add: e)
  then show "e \<in> set written"
    unfolding written_def by (metis (mono_tags, lifting) image_eqI set_map)
qed

lemma distinct_written: "distinct (map fst written)"
proof -
  have "map fst written = map (\<lambda>n. 49999 - int n) [0..<50000]"
    by (simp add: written_def o_def)
  moreover have "inj_on (\<lambda>n. 49999 - int n) (set [0..<50000])"
    by (rule inj_onI) simp
  ultimately show ?thesis
    by (simp only: distinct_map distinct_upt simp_thms)
qed

lemma take5_written:
  "take 5 written = [(49999, 999), (49998, 998), (49997, 997), (49996, 996), (49995, 995)]"
proof -
  have "take 5 [0..<50000] = [0..<5]" by simp
  also have "\<dots> = [0, 1, 2, 3, 4]" by (simp add: upt_rec)
  finally show ?thesis by (simp add: written_def take_map)
qed

text \<open>The worker index and the iteration index can be read back from a key.\<close>

lemma key_div: "0 \<le> i \<Longrightarrow> i < 1000 \<Longrightarrow> key g i div 1000 = g"
  by (simp add: key_def)

lemma key_mod: "0 \<le> i \<Longrightarrow> i < 1000 \<Longrightarrow> key g i mod 1000 = i"
  by (simp add: key_def)

text \<open>
  C5. For worker indices in \<open>[0, W)\<close> and iteration indices in \<open>[0, I)\<close> with
  \<open>I \<le> 1000\<close>, two (worker, iteration) pairs have the same key exactly when they are the
  same pair: no key is written by two workers, or twice by one.
\<close>

theorem key_distinct:
  assumes "0 \<le> g1" "g1 < W" "0 \<le> g2" "g2 < W"
    and "0 \<le> i1" "i1 < I" "0 \<le> i2" "i2 < I" "I \<le> 1000"
  shows "(key g1 i1 = key g2 i2) = (g1 = g2 \<and> i1 = i2)"
proof
  assume same: "key g1 i1 = key g2 i2"
  from assms have "i1 < 1000" "i2 < 1000" by simp_all
  with assms have "key g1 i1 div 1000 = g1" "key g1 i1 mod 1000 = i1"
    and "key g2 i2 div 1000 = g2" "key g2 i2 mod 1000 = i2"
    by (simp_all add: key_div key_mod)
  with same show "g1 = g2 \<and> i1 = i2" by simp
next
  assume "g1 = g2 \<and> i1 = i2"
  then show "key g1 i1 = key g2 i2" by simp
qed

theorem key_distinct_witness:
  "key 0 999 \<noteq> key 1 0 \<and> key 0 999 = 999 \<and> key 1 0 = 1000"
proof -
  have "(key 0 999 = key 1 0) = ((0::int) = 1 \<and> (999::int) = 0)"
    by (rule key_distinct [where W = 50 and I = 1000]) simp_all
  then show ?thesis by (simp add: key_def)
qed

text \<open>
  C7, as the code has it. After the barrier \<open>main\<close> prints the number of entries counted
  by \<open>Range\<close>, the elapsed time, a heading and the first five entries that \<open>Range\<close>
  enumerates, and nothing else.
\<close>

theorem main_report_lines:
  "main_report m elapsed
     = [(''Length of map: %d\<newline>'', [IntArg (int (length m))]),
        (''Total time taken: %v\<newline>'', [DurationArg elapsed]),
        (''\<newline>Example: First few entries:\<newline>'', [])]
       @ map entry_line (take 5 m)"
  by (simp add: main_report_def RangeMap_count RangeMap_print)

text \<open>
  C7, as the claim states it, fails: with all 50000 entries in the map (the expected
  count \<open>workers * iterations\<close>) and 2.87 ms elapsed, the output is the eight lines below;
  no line carries the discrepancy between the expected and the observed count.
\<close>

theorem main_report_no_discrepancy:
  "main_report written 2870000
     = [(''Length of map: %d\<newline>'', [IntArg 50000]),
        (''Total time taken: %v\<newline>'', [DurationArg 2870000]),
        (''\<newline>Example: First few entries:\<newline>'', []),
        (''  Key: %v, Value: %v\<newline>'', [IntArg 49999, IntArg 999]),
        (''  Key: %v, Value: %v\<newline>'', [IntArg 49998, IntArg 998]),
        (''  Key: %v, Value: %v\<newline>'', [IntArg 49997, IntArg 997]),
        (''  Key: %v, Value: %v\<newline>'', [IntArg 49996, IntArg 996]),
        (''  Key: %v, Value: %v\<newline>'', [IntArg 49995, IntArg 995])]
   \<and> \<not> (\<exists>line \<in> set (main_report written 2870000).
           IntArg (workers * iterations - int (length written)) \<in> set (snd line))"
proof -
  have len: "length written = 50000" by (simp add: written_def)
  have rep: "main_report written 2870000
     = [(''Length of map: %d\<newline>'', [IntArg 50000]),
        (''Total time taken: %v\<newline>'', [DurationArg 2870000]),
        (''\<newline>Example: First few entries:\<newline>'', []),
        (''  Key: %v, Value: %v\<newline>'', [IntArg 49999, IntArg 999]),
        (''  Key: %v, Value: %v\<newline>'', [IntArg 49998, IntArg 998]),
        (''  Key: %v, Value: %v\<newline>'', [IntArg 49997, IntArg 997]),
        (''  Key: %v, Value: %v\<newline>'', [IntArg 49996, IntArg 996]),
        (''  Key: %v, Value: %v\<newline>'', [IntArg 49995, IntArg 995])]"
    by (simp add: main_report_def RangeMap_count RangeMap_print len take5_written entry_line_def)
  have "\<not> (\<exists>line \<in> set (main_report written 2870000).
           IntArg (workers * iterations - int (length written)) \<in> set (snd line))"
    unfolding rep len by (simp add: workers_def iterations_def)
  with rep show ?thesis by blast
qed

section \<open>Properties of the atomic counter program\<close>

lemma for_range_Add: "for_range n (Add d) c = c + of_nat n * d"
  by (induction n arbitrary: c) (simp_all add: Add_def algebra_simps)

lemma goroutine_adds: "goroutine c = c + 1000"
  by (simp add: goroutine_def for_range_Add)

lemma for_range_goroutine: "for_range n goroutine c = c + of_nat n * 1000"
  by (induction n arbitrary: c) (simp_all add: goroutine_adds algebra_simps)

text \<open>
  C4, as the code has it. The counter program runs 500 goroutines of 1000 increments:
  the atomic counter ends at 500000, which is the expected value \<open>500 * 1000\<close> the program
  compares with, and no atomic increment is lost.
\<close>

theorem counter_configuration:
  "atomicOps_final = 500000 \<and> expected = 500 * 1000 \<and> atomicOps_final = expected \<and> atomicLost = 0"
  by (simp add: atomicOps_final_def for_range_goroutine expected_def atomicLost_def)

text \<open>
  C4, as the claim states it, fails: neither the atomic counter's final value nor the
  program's expected value is 50000.
\<close>

theorem counter_not_50000:
  "\<not> (atomicOps_final = 50000 \<or> expected = 50000)"
  by (simp add: atomicOps_final_def for_range_goroutine expected_def)

end
